theory Spec2Isabelle
  imports Main
begin

section \<open>Numbers as strings\<close>

text \<open>
  The store keeps every scalar as a string. The client writes a number with
  \<^verbatim>\<open>ioredis.set(key, value ?? 0)\<close>, which sends the decimal text of the number, and
  reads one back with \<^verbatim>\<open>Number.parseInt(val ?? "0")\<close>. Numbers are taken as
  mathematical integers here: the limits of a JavaScript number (2^53) and of the
  store's integers (2^63) are outside the model.
\<close>

definition digit_char :: "nat \<Rightarrow> char" where
  "digit_char d = char_of (48 + d)"

fun dec_digits :: "nat \<Rightarrow> string" where
  "dec_digits n =
     (if n < 10 then [digit_char n] else dec_digits (n div 10) @ [digit_char (n mod 10)])"

declare dec_digits.simps [simp del]

definition show_int :: "int \<Rightarrow> string" where
  "show_int i = (if i < 0 then CHR ''-'' # dec_digits (nat (- i)) else dec_digits (nat i))"

text \<open>
  The value of an alphanumeric character as a digit (\<open>0-9\<close>, then \<open>a-z\<close> or \<open>A-Z\<close>
  for 10 to 35); 36, which is no digit of any radix, for every other character.
\<close>

definition alnum_value :: "char \<Rightarrow> nat" where
  "alnum_value c =
     (let v = (of_char c :: nat)
      in if 48 \<le> v \<and> v \<le> 57 then v - 48
         else if 97 \<le> v \<and> v \<le> 122 then v - 87
         else if 65 \<le> v \<and> v \<le> 90 then v - 55
         else 36)"

definition is_radix_digit :: "nat \<Rightarrow> char \<Rightarrow> bool" where
  "is_radix_digit r c = (alnum_value c < r)"

definition radix_value :: "nat \<Rightarrow> string \<Rightarrow> nat" where
  "radix_value r z = foldl (\<lambda>a c. r * a + alnum_value c) 0 z"

text \<open>White space and line terminators that \<^verbatim>\<open>parseInt\<close> skips (the ASCII ones).\<close>

definition is_space :: "char \<Rightarrow> bool" where
  "is_space c = (c \<in> set [CHR '' '', CHR 0x09, CHR 0x0A, CHR 0x0B, CHR 0x0C, CHR 0x0D])"

text \<open>
  \<^verbatim>\<open>Number.parseInt(s)\<close> with no radix: skip leading white space, take a sign, take
  the prefix \<^verbatim>\<open>0x\<close> or \<^verbatim>\<open>0X\<close> as radix 16, read the longest run of digits, and
  ignore what follows. No digit at all gives \<^verbatim>\<open>NaN\<close>, which is \<open>None\<close> here.
\<close>

definition parseInt :: "string \<Rightarrow> int option" where
  "parseInt s =
     (let s1 = dropWhile is_space s;
          neg = (case s1 of [] \<Rightarrow> False | c # _ \<Rightarrow> c = CHR ''-'');
          s2 = (case s1 of [] \<Rightarrow> [] | c # r \<Rightarrow> if c = CHR ''-'' \<or> c = CHR ''+'' then r else s1);
          hex = (case s2 of c0 # cx # _ \<Rightarrow> c0 = CHR ''0'' \<and> (cx = CHR ''x'' \<or> cx = CHR ''X'')
                 | _ \<Rightarrow> False);
          radix = (if hex then 16 else 10);
          s3 = (if hex then drop 2 s2 else s2);
          z = takeWhile (is_radix_digit radix) s3
      in if z = [] then None
         else Some ((if neg then - 1 else 1) * int (radix_value radix z)))"

text \<open>
  The store's own reading of a value as an integer (\<^verbatim>\<open>INCRBY\<close>, \<^verbatim>\<open>HINCRBY\<close>) is
  strict: an optional minus sign and decimal digits with no leading zero, nothing else.
\<close>

definition canonical_digits :: "string \<Rightarrow> bool" where
  "canonical_digits ds =
     (case ds of [] \<Rightarrow> False
      | c # _ \<Rightarrow> c \<noteq> CHR ''0'' \<and> list_all (is_radix_digit 10) ds)"

definition string2ll :: "string \<Rightarrow> int option" where
  "string2ll s =
     (if s = ''0'' then Some 0
      else case s of [] \<Rightarrow> None
      | c # r \<Rightarrow>
          if c = CHR ''-''
          then (if canonical_digits r then Some (- int (radix_value 10 r)) else None)
          else (if canonical_digits s then Some (int (radix_value 10 s)) else None))"


section \<open>The store\<close>

text \<open>
  The store is the external collaborator: a keyed collection of strings and hashes, each
  key with an optional deadline after which it is gone, and a clock in seconds. Each
  command below is one atomic step of the store. A key whose deadline has been reached is
  removed before the command looks at it.
\<close>

type_synonym key = string

datatype rval = RString string | RHash "string \<Rightarrow> string option"

record store =
  vals :: "key \<Rightarrow> rval option"
  expires :: "key \<Rightarrow> int option"
  clock :: int

datatype error = InvalidArgument | WrongType | NotAnInteger

definition remove_key :: "key \<Rightarrow> store \<Rightarrow> store" where
  "remove_key k st = st\<lparr>vals := (vals st)(k := None), expires := (expires st)(k := None)\<rparr>"

definition expire_if_needed :: "key \<Rightarrow> store \<Rightarrow> store" where
  "expire_if_needed k st =
     (case expires st k of
        None \<Rightarrow> st
      | Some d \<Rightarrow> if d \<le> clock st then remove_key k st else st)"

text \<open>Time passing: \<open>d\<close> seconds go by and no command is issued.\<close>

definition advance :: "nat \<Rightarrow> store \<Rightarrow> store" where
  "advance d st = st\<lparr>clock := clock st + int d\<rparr>"

definition redis_get :: "key \<Rightarrow> store \<Rightarrow> (error + string option) \<times> store" where
  "redis_get k st0 =
     (let st = expire_if_needed k st0
      in case vals st k of
           None \<Rightarrow> (Inr None, st)
         | Some (RString s) \<Rightarrow> (Inr (Some s), st)
         | Some (RHash h) \<Rightarrow> (Inl WrongType, st))"

text \<open>\<^verbatim>\<open>SET\<close> overwrites a value of any type and discards the key's deadline.\<close>

definition redis_set :: "key \<Rightarrow> string \<Rightarrow> store \<Rightarrow> (error + unit) \<times> store" where
  "redis_set k v st =
     (Inr (), st\<lparr>vals := (vals st)(k \<mapsto> RString v), expires := (expires st)(k := None)\<rparr>)"

definition redis_setnx :: "key \<Rightarrow> string \<Rightarrow> store \<Rightarrow> (error + int) \<times> store" where
  "redis_setnx k v st0 =
     (let st = expire_if_needed k st0
      in case vals st k of
           None \<Rightarrow>
             (Inr 1, st\<lparr>vals := (vals st)(k \<mapsto> RString v), expires := (expires st)(k := None)\<rparr>)
         | Some _ \<Rightarrow> (Inr 0, st))"

definition redis_del :: "key \<Rightarrow> store \<Rightarrow> (error + int) \<times> store" where
  "redis_del k st0 =
     (let st = expire_if_needed k st0
      in case vals st k of
           None \<Rightarrow> (Inr 0, st)
         | Some _ \<Rightarrow> (Inr 1, remove_key k st))"

text \<open>\<^verbatim>\<open>EXPIRE\<close> with a timeout that is not positive deletes the key at once.\<close>

definition redis_expire :: "key \<Rightarrow> int \<Rightarrow> store \<Rightarrow> (error + int) \<times> store" where
  "redis_expire k secs st0 =
     (let st = expire_if_needed k st0
      in case vals st k of
           None \<Rightarrow> (Inr 0, st)
         | Some _ \<Rightarrow>
             if secs \<le> 0 then (Inr 1, remove_key k st)
             else (Inr 1, st\<lparr>expires := (expires st)(k \<mapsto> clock st + secs)\<rparr>))"

text \<open>\<^verbatim>\<open>INCRBY\<close> creates an absent key at the increment and keeps a deadline.\<close>

definition redis_incrby :: "key \<Rightarrow> int \<Rightarrow> store \<Rightarrow> (error + int) \<times> store" where
  "redis_incrby k n st0 =
     (let st = expire_if_needed k st0
      in case vals st k of
           None \<Rightarrow>
             (Inr n, st\<lparr>vals := (vals st)(k \<mapsto> RString (show_int n)),
                         expires := (expires st)(k := None)\<rparr>)
         | Some (RString s) \<Rightarrow>
             (case string2ll s of
                None \<Rightarrow> (Inl NotAnInteger, st)
              | Some v \<Rightarrow> (Inr (v + n), st\<lparr>vals := (vals st)(k \<mapsto> RString (show_int (v + n)))\<rparr>))
         | Some (RHash h) \<Rightarrow> (Inl WrongType, st))"

definition redis_hincrby :: "key \<Rightarrow> string \<Rightarrow> int \<Rightarrow> store \<Rightarrow> (error + int) \<times> store" where
  "redis_hincrby k f n st0 =
     (let st = expire_if_needed k st0
      in case vals st k of
           None \<Rightarrow>
             (Inr n, st\<lparr>vals := (vals st)(k \<mapsto> RHash ((\<lambda>_. None)(f \<mapsto> show_int n))),
                         expires := (expires st)(k := None)\<rparr>)
         | Some (RString s) \<Rightarrow> (Inl WrongType, st)
         | Some (RHash h) \<Rightarrow>
             (case h f of
                None \<Rightarrow> (Inr n, st\<lparr>vals := (vals st)(k \<mapsto> RHash (h(f \<mapsto> show_int n)))\<rparr>)
              | Some s \<Rightarrow>
                  (case string2ll s of
                     None \<Rightarrow> (Inl NotAnInteger, st)
                   | Some v \<Rightarrow>
                       (Inr (v + n),
                        st\<lparr>vals := (vals st)(k \<mapsto> RHash (h(f \<mapsto> show_int (v + n))))\<rparr>))))"

text \<open>The commands as they go over the wire, and the effect of each on the store.\<close>

datatype cmd =
    GET key
  | SET key string
  | SETNX key string
  | DEL key
  | EXPIRE key int
  | INCR key
  | INCRBY key int
  | DECR key
  | DECRBY key int
  | HINCRBY key string int

fun effect :: "cmd \<Rightarrow> store \<Rightarrow> store" where
  "effect (GET k) st = snd (redis_get k st)"
| "effect (SET k v) st = snd (redis_set k v st)"
| "effect (SETNX k v) st = snd (redis_setnx k v st)"
| "effect (DEL k) st = snd (redis_del k st)"
| "effect (EXPIRE k s) st = snd (redis_expire k s st)"
| "effect (INCR k) st = snd (redis_incrby k 1 st)"
| "effect (INCRBY k n) st = snd (redis_incrby k n st)"
| "effect (DECR k) st = snd (redis_incrby k (- 1) st)"
| "effect (DECRBY k n) st = snd (redis_incrby k (- n) st)"
| "effect (HINCRBY k f n) st = snd (redis_hincrby k f n st)"

text \<open>What a client sees at a key: its value, its deadline, the integer it holds.\<close>

definition value_at :: "store \<Rightarrow> key \<Rightarrow> rval option" where
  "value_at st k = vals (expire_if_needed k st) k"

definition deadline_at :: "store \<Rightarrow> key \<Rightarrow> int option" where
  "deadline_at st k =
     (case value_at st k of None \<Rightarrow> None | Some _ \<Rightarrow> expires (expire_if_needed k st) k)"

definition count_at :: "store \<Rightarrow> key \<Rightarrow> int option" where
  "count_at st k =
     (case value_at st k of
        None \<Rightarrow> Some 0
      | Some (RString s) \<Rightarrow> string2ll s
      | Some (RHash h) \<Rightarrow> None)"

definition field_count_at :: "store \<Rightarrow> key \<Rightarrow> string \<Rightarrow> int option" where
  "field_count_at st k f =
     (case value_at st k of
        None \<Rightarrow> Some 0
      | Some (RString s) \<Rightarrow> None
      | Some (RHash h) \<Rightarrow> (case h f of None \<Rightarrow> Some 0 | Some s \<Rightarrow> string2ll s))"

section \<open>The client\<close>

text \<open>
  The connection \<^verbatim>\<open>ioredis\<close>: the store behind it and the commands sent so far, in
  order. Every call of the client library below goes through it, one command per call.
\<close>

record ioredis =
  db :: store
  sent :: "cmd list"

definition issue :: "cmd \<Rightarrow> (store \<Rightarrow> (error + 'a) \<times> store) \<Rightarrow> ioredis \<Rightarrow> (error + 'a) \<times> ioredis" where
  "issue c run io = (case run (db io) of (r, st) \<Rightarrow> (r, \<lparr>db = st, sent = sent io @ [c]\<rparr>))"

definition ioredis_get :: "key \<Rightarrow> ioredis \<Rightarrow> (error + string option) \<times> ioredis" where
  "ioredis_get k = issue (GET k) (redis_get k)"

definition ioredis_set :: "key \<Rightarrow> string \<Rightarrow> ioredis \<Rightarrow> (error + unit) \<times> ioredis" where
  "ioredis_set k v = issue (SET k v) (redis_set k v)"

definition ioredis_setnx :: "key \<Rightarrow> string \<Rightarrow> ioredis \<Rightarrow> (error + int) \<times> ioredis" where
  "ioredis_setnx k v = issue (SETNX k v) (redis_setnx k v)"

definition ioredis_del :: "key \<Rightarrow> ioredis \<Rightarrow> (error + int) \<times> ioredis" where
  "ioredis_del k = issue (DEL k) (redis_del k)"

definition ioredis_expire :: "key \<Rightarrow> int \<Rightarrow> ioredis \<Rightarrow> (error + int) \<times> ioredis" where
  "ioredis_expire k s = issue (EXPIRE k s) (redis_expire k s)"

definition ioredis_incr :: "key \<Rightarrow> ioredis \<Rightarrow> (error + int) \<times> ioredis" where
  "ioredis_incr k = issue (INCR k) (redis_incrby k 1)"

definition ioredis_incrby :: "key \<Rightarrow> int \<Rightarrow> ioredis \<Rightarrow> (error + int) \<times> ioredis" where
  "ioredis_incrby k n = issue (INCRBY k n) (redis_incrby k n)"

definition ioredis_decr :: "key \<Rightarrow> ioredis \<Rightarrow> (error + int) \<times> ioredis" where
  "ioredis_decr k = issue (DECR k) (redis_incrby k (- 1))"

definition ioredis_decrby :: "key \<Rightarrow> int \<Rightarrow> ioredis \<Rightarrow> (error + int) \<times> ioredis" where
  "ioredis_decrby k n = issue (DECRBY k n) (redis_incrby k (- n))"

definition ioredis_hincrby :: "key \<Rightarrow> string \<Rightarrow> int \<Rightarrow> ioredis \<Rightarrow> (error + int) \<times> ioredis" where
  "ioredis_hincrby k f n = issue (HINCRBY k f n) (redis_hincrby k f n)"

text \<open>
  \<^verbatim>\<open>await\<close>: run a call, and go on with its result unless it was rejected; a
  rejection ends the surrounding \<^verbatim>\<open>async\<close> function with that error.
\<close>

definition await :: "('s \<Rightarrow> (error + 'a) \<times> 's) \<Rightarrow> ('a \<Rightarrow> 's \<Rightarrow> (error + 'b) \<times> 's) \<Rightarrow> 's \<Rightarrow> (error + 'b) \<times> 's" where
  "await m f io = (case m io of (Inl e, io1) \<Rightarrow> (Inl e, io1) | (Inr v, io1) \<Rightarrow> f v io1)"

definition return :: "'a \<Rightarrow> 's \<Rightarrow> (error + 'a) \<times> 's" where
  "return v io = (Inr v, io)"

text \<open>
  A call started without \<^verbatim>\<open>await\<close>: the command is sent, in order, on the same
  connection, and neither its reply nor its rejection is looked at.
\<close>

definition unawaited :: "('s \<Rightarrow> (error + 'a) \<times> 's) \<Rightarrow> 's \<Rightarrow> 's" where
  "unawaited m io = snd (m io)"

text \<open>
  An optional numeric argument tested with \<^verbatim>\<open>if (c)\<close>: the amount when it is given
  and not zero, nothing when it is omitted or zero.
\<close>

definition truthy :: "int option \<Rightarrow> int option" where
  "truthy c = (case c of None \<Rightarrow> None | Some a \<Rightarrow> if a = 0 then None else Some a)"

subsection \<open>lock\<close>

text \<open>
  \<^verbatim>\<open>lock(key, seconds?)\<close>: the seconds argument is optional, and is taken as an
  integer when given. The object returned on success has the one method
  \<^verbatim>\<open>release\<close>; \<^verbatim>\<open>null\<close> is \<open>None\<close>.
\<close>

record lock_handle =
  lock_key :: key

definition release :: "lock_handle \<Rightarrow> ioredis \<Rightarrow> (error + unit) \<times> ioredis" where
  "release h = await (ioredis_del (lock_key h)) (\<lambda>_. return ())"

definition lock :: "key \<Rightarrow> int option \<Rightarrow> ioredis \<Rightarrow> (error + lock_handle option) \<times> ioredis" where
  "lock key seconds =
     await (ioredis_setnx key ''locked'')
       (\<lambda>val io1.
          if val = 0 then return None io1
          else return (Some \<lparr>lock_key = key\<rparr>)
                 (unawaited (ioredis_expire key (case seconds of None \<Rightarrow> 30 | Some s \<Rightarrow> s)) io1))"

subsection \<open>counter\<close>

record counter_handle =
  counter_key :: key

definition counter_get :: "counter_handle \<Rightarrow> ioredis \<Rightarrow> (error + int option) \<times> ioredis" where
  "counter_get h =
     await (ioredis_get (counter_key h))
       (\<lambda>val. return (parseInt (case val of None \<Rightarrow> ''0'' | Some s \<Rightarrow> s)))"

definition counter_incr :: "counter_handle \<Rightarrow> int option \<Rightarrow> ioredis \<Rightarrow> (error + int) \<times> ioredis" where
  "counter_incr h c =
     (case truthy c of
        Some a \<Rightarrow> await (ioredis_incrby (counter_key h) a) return
      | None \<Rightarrow> await (ioredis_incr (counter_key h)) return)"

definition counter_decr :: "counter_handle \<Rightarrow> int option \<Rightarrow> ioredis \<Rightarrow> (error + int) \<times> ioredis" where
  "counter_decr h c =
     (case truthy c of
        Some a \<Rightarrow> await (ioredis_decrby (counter_key h) a) return
      | None \<Rightarrow> await (ioredis_decr (counter_key h)) return)"

definition counter :: "key \<Rightarrow> int option \<Rightarrow> ioredis \<Rightarrow> (error + counter_handle) \<times> ioredis" where
  "counter key val =
     await (ioredis_set key (show_int (case val of None \<Rightarrow> 0 | Some v \<Rightarrow> v)))
       (\<lambda>_. return \<lparr>counter_key = key\<rparr>)"

subsection \<open>throttle\<close>

record throttle_handle =
  throttle_key :: key
  maxValue :: int
  seconds :: int

text \<open>
  The constructor is synchronous and sends nothing; its fourth parameter is not used.
  It is given a result type with an error side so that a rejection could be stated.
\<close>

definition throttle :: "key \<Rightarrow> int \<Rightarrow> int option \<Rightarrow> int option \<Rightarrow> error + throttle_handle" where
  "throttle key maxV secs val =
     Inr \<lparr>throttle_key = key, maxValue = maxV,
          seconds = (case secs of None \<Rightarrow> 60 | Some s \<Rightarrow> s)\<rparr>"

definition throttle_get :: "throttle_handle \<Rightarrow> ioredis \<Rightarrow> (error + int option) \<times> ioredis" where
  "throttle_get h =
     await (ioredis_get (throttle_key h))
       (\<lambda>val. return (parseInt (case val of None \<Rightarrow> ''0'' | Some s \<Rightarrow> s)))"

definition throttle_incr :: "throttle_handle \<Rightarrow> int option \<Rightarrow> ioredis \<Rightarrow> (error + bool) \<times> ioredis" where
  "throttle_incr h c =
     (case truthy c of
        Some a \<Rightarrow>
          await (ioredis_incrby (throttle_key h) a)
            (\<lambda>count.
               if count = 1
               then await (ioredis_expire (throttle_key h) (seconds h))
                      (\<lambda>_. return (count > maxValue h))
               else return (count > maxValue h))
      | None \<Rightarrow>
          await (ioredis_incr (throttle_key h))
            (\<lambda>count.
               if count = 1
               then await (ioredis_expire (throttle_key h) (seconds h))
                      (\<lambda>_. return (count > maxValue h))
               else return (count > maxValue h)))"

subsection \<open>serial\<close>

record serial_handle =
  serial_key :: key

definition serial :: "key \<Rightarrow> serial_handle" where
  "serial key = \<lparr>serial_key = key\<rparr>"

text \<open>The loop of \<^verbatim>\<open>getMany\<close>: \<^verbatim>\<open>for (let i = ...; i <= num; i++) s.push(i)\<close>.\<close>

function push_range :: "int \<Rightarrow> int \<Rightarrow> int list \<Rightarrow> int list" where
  "push_range i num s = (if i \<le> num then push_range (i + 1) num (s @ [i]) else s)"
  by pat_completeness auto
termination
  by (relation "measure (\<lambda>(i, num, s). nat (num - i + 1))") auto

declare push_range.simps [simp del]

definition getOne :: "serial_handle \<Rightarrow> string \<Rightarrow> ioredis \<Rightarrow> (error + int) \<times> ioredis" where
  "getOne h field = await (ioredis_hincrby (serial_key h) field 1) return"

definition getMany :: "serial_handle \<Rightarrow> string \<Rightarrow> int \<Rightarrow> ioredis \<Rightarrow> (error + int list) \<times> ioredis" where
  "getMany h field count =
     await (ioredis_hincrby (serial_key h) field count)
       (\<lambda>num. return (push_range (num - count + 1) num []))"

text \<open>A connection to an empty store at time 0 with nothing sent.\<close>

definition fresh :: ioredis where
  "fresh = \<lparr>db = \<lparr>vals = (\<lambda>_. None), expires = (\<lambda>_. None), clock = 0\<rparr>, sent = []\<rparr>"

text \<open>Time passing on a connection: \<open>d\<close> seconds during which nothing is sent.\<close>

definition elapse :: "nat \<Rightarrow> ioredis \<Rightarrow> ioredis" where
  "elapse d io = io\<lparr>db := advance d (db io)\<rparr>"

subsection \<open>Sequences of calls\<close>

text \<open>
  A caller that awaits one call after the other, as the tests of the library do; a
  rejected call ends the sequence.
\<close>

datatype counter_call = Incr "int option" | Decr "int option"

fun counter_do :: "counter_handle \<Rightarrow> counter_call \<Rightarrow> ioredis \<Rightarrow> (error + int) \<times> ioredis" where
  "counter_do h (Incr c) = counter_incr h c"
| "counter_do h (Decr c) = counter_decr h c"

fun counter_calls :: "counter_handle \<Rightarrow> counter_call list \<Rightarrow> ioredis \<Rightarrow> (error + int list) \<times> ioredis" where
  "counter_calls h [] = return []"
| "counter_calls h (x # xs) =
     await (counter_do h x) (\<lambda>r. await (counter_calls h xs) (\<lambda>rs. return (r # rs)))"

fun throttle_incrs :: "throttle_handle \<Rightarrow> int option list \<Rightarrow> ioredis \<Rightarrow> (error + bool list) \<times> ioredis" where
  "throttle_incrs h [] = return []"
| "throttle_incrs h (c # cs) =
     await (throttle_incr h c) (\<lambda>r. await (throttle_incrs h cs) (\<lambda>rs. return (r # rs)))"

subsection \<open>The specification's arithmetic\<close>

text \<open>
  What the specification says of a call, in its own words: the amount of a call is the
  one given, and 1 when it is omitted; a counter's value is the initial value plus the
  amounts of the increments minus the amounts of the decrements.
\<close>

definition spec_amount :: "int option \<Rightarrow> int" where
  "spec_amount c = (case c of None \<Rightarrow> 1 | Some a \<Rightarrow> a)"

fun spec_positive :: "counter_call \<Rightarrow> bool" where
  "spec_positive (Incr c) = (0 < spec_amount c)"
| "spec_positive (Decr c) = (0 < spec_amount c)"

fun spec_incr_amounts :: "counter_call list \<Rightarrow> int list" where
  "spec_incr_amounts [] = []"
| "spec_incr_amounts (Incr c # xs) = spec_amount c # spec_incr_amounts xs"
| "spec_incr_amounts (Decr c # xs) = spec_incr_amounts xs"

fun spec_decr_amounts :: "counter_call list \<Rightarrow> int list" where
  "spec_decr_amounts [] = []"
| "spec_decr_amounts (Incr c # xs) = spec_decr_amounts xs"
| "spec_decr_amounts (Decr c # xs) = spec_amount c # spec_decr_amounts xs"

text \<open>The value each call of a sequence should return, starting from \<open>v\<close>.\<close>

fun spec_returns :: "int \<Rightarrow> counter_call list \<Rightarrow> int list" where
  "spec_returns v [] = []"
| "spec_returns v (Incr c # xs) = (v + spec_amount c) # spec_returns (v + spec_amount c) xs"
| "spec_returns v (Decr c # xs) = (v - spec_amount c) # spec_returns (v - spec_amount c) xs"

definition single_unit :: "int option \<Rightarrow> bool" where
  "single_unit c = (c = None \<or> c = Some 1)"

text \<open>
  What \<open>k\<close> single-unit increments in a row should answer for a capacity \<open>cap\<close>
  when the count starts at \<open>n\<close>: each answers whether the count it reaches is over.
\<close>

fun over_list :: "int \<Rightarrow> int \<Rightarrow> nat \<Rightarrow> bool list" where
  "over_list cap n 0 = []"
| "over_list cap n (Suc k) = (cap < n + 1) # over_list cap (n + 1) k"

section \<open>Facts about numbers as strings\<close>

text \<open>
  The decimal text of an integer is read back as that integer, both by the store's
  strict reader and by \<^verbatim>\<open>parseInt\<close>.
\<close>

lemma of_char_digit_char: "d < 10 \<Longrightarrow> (of_char (digit_char d) :: nat) = 48 + d"
  by (simp add: digit_char_def)

lemma alnum_value_digit_char: "d < 10 \<Longrightarrow> alnum_value (digit_char d) = d"
  by (simp add: alnum_value_def of_char_digit_char)

lemma is_radix_digit_digit_char: "d < 10 \<Longrightarrow> is_radix_digit 10 (digit_char d)"
  by (simp add: is_radix_digit_def alnum_value_digit_char)

lemma dec_digits_not_empty: "dec_digits n \<noteq> []"
  by (subst dec_digits.simps) simp

lemma dec_digits_all_digits: "list_all (is_radix_digit 10) (dec_digits n)"
proof (induction n rule: dec_digits.induct)
  case (1 n)
  show ?case
  proof (cases "n < 10")
    case True
    then show ?thesis
      by (subst dec_digits.simps) (simp add: is_radix_digit_digit_char)
  next
    case False
    with 1 show ?thesis
      by (subst dec_digits.simps) (simp add: is_radix_digit_digit_char)
  qed
qed

lemma radix_value_snoc: "radix_value r (z @ [c]) = r * radix_value r z + alnum_value c"
  by (simp add: radix_value_def)

lemma radix_value_dec_digits: "radix_value 10 (dec_digits n) = n"
proof (induction n rule: dec_digits.induct)
  case (1 n)
  show ?case
  proof (cases "n < 10")
    case True
    then show ?thesis
      by (subst dec_digits.simps) (simp add: radix_value_def alnum_value_digit_char)
  next
    case False
    with 1 have "radix_value 10 (dec_digits (n div 10)) = n div 10" by simp
    with False show ?thesis
      by (subst dec_digits.simps) (simp add: radix_value_snoc alnum_value_digit_char)
  qed
qed

lemma digit_char_not_zero: "0 < d \<Longrightarrow> d < 10 \<Longrightarrow> digit_char d \<noteq> CHR ''0''"
proof
  assume "0 < d" "d < 10" "digit_char d = CHR ''0''"
  then have "(of_char (digit_char d) :: nat) = of_char (CHR ''0'')" by simp
  with \<open>d < 10\<close> \<open>0 < d\<close> show False by (simp add: of_char_digit_char)
qed

lemma hd_dec_digits: "0 < n \<Longrightarrow> hd (dec_digits n) \<noteq> CHR ''0''"
proof (induction n rule: dec_digits.induct)
  case (1 n)
  show ?case
  proof (cases "n < 10")
    case True
    with 1 show ?thesis
      by (subst dec_digits.simps) (simp add: digit_char_not_zero)
  next
    case False
    then have "0 < n div 10" by simp
    with 1 False have "hd (dec_digits (n div 10)) \<noteq> CHR ''0''" by simp
    with False show ?thesis
      by (subst dec_digits.simps) (simp add: dec_digits_not_empty)
  qed
qed

lemma dec_digits_zero: "dec_digits 0 = ''0''"
  by code_simp

lemma digit_not_special:
  "is_radix_digit 10 c \<Longrightarrow> c \<noteq> CHR ''-'' \<and> c \<noteq> CHR ''+'' \<and> c \<noteq> CHR ''x'' \<and> c \<noteq> CHR ''X'' \<and> \<not> is_space c"
  by (auto simp: is_radix_digit_def alnum_value_def is_space_def)

lemma canonical_dec_digits: "0 < n \<Longrightarrow> canonical_digits (dec_digits n)"
  using hd_dec_digits [of n] dec_digits_not_empty [of n] dec_digits_all_digits [of n]
  by (cases "dec_digits n") (simp_all add: canonical_digits_def)

lemma hd_dec_digits_digit: "is_radix_digit 10 (hd (dec_digits n))"
  using dec_digits_not_empty [of n] dec_digits_all_digits [of n]
  by (cases "dec_digits n") simp_all

lemma string2ll_dec_digits: "0 < n \<Longrightarrow> string2ll (dec_digits n) = Some (int n)"
proof -
  assume pos: "0 < n"
  obtain c r where s: "dec_digits n = c # r"
    using dec_digits_not_empty [of n] by (cases "dec_digits n") auto
  have c0: "c \<noteq> CHR ''0''" using hd_dec_digits [OF pos] s by simp
  have cm: "c \<noteq> CHR ''-''" using hd_dec_digits_digit [of n] s digit_not_special [of c] by simp
  have "canonical_digits (c # r)" using canonical_dec_digits [OF pos] s by simp
  moreover have "radix_value 10 (c # r) = n" using radix_value_dec_digits [of n] s by simp
  ultimately show ?thesis using c0 cm s by (simp add: string2ll_def)
qed

lemma string2ll_show_int: "string2ll (show_int i) = Some i"
proof -
  consider "i = 0" | "0 < i" | "i < 0" by linarith
  then show ?thesis
  proof cases
    case 1
    then show ?thesis by (simp add: show_int_def dec_digits_zero string2ll_def)
  next
    case 2
    then show ?thesis by (simp add: show_int_def string2ll_dec_digits)
  next
    case 3
    then have pos: "0 < nat (- i)" by simp
    have "canonical_digits (dec_digits (nat (- i)))" by (rule canonical_dec_digits [OF pos])
    with 3 show ?thesis
      by (simp add: show_int_def string2ll_def radix_value_dec_digits)
  qed
qed

lemma takeWhile_all: "list_all P xs \<Longrightarrow> takeWhile P xs = xs"
  by (induction xs) simp_all

lemma no_hex_prefix:
  assumes "list_all (is_radix_digit 10) s"
  shows "(case s of c0 # cx # _ \<Rightarrow> c0 = CHR ''0'' \<and> (cx = CHR ''x'' \<or> cx = CHR ''X'') | _ \<Rightarrow> False) = False"
proof (cases s)
  case Nil
  then show ?thesis by simp
next
  case (Cons c0 r)
  show ?thesis
  proof (cases r)
    case Nil
    with Cons show ?thesis by simp
  next
    case (Cons cx r')
    with \<open>s = c0 # r\<close> assms have "is_radix_digit 10 cx" by simp
    then have "cx \<noteq> CHR ''x'' \<and> cx \<noteq> CHR ''X''" using digit_not_special [of cx] by simp
    with Cons \<open>s = c0 # r\<close> show ?thesis by simp
  qed
qed

lemma parseInt_digits:
  assumes "list_all (is_radix_digit 10) s" "s \<noteq> []"
  shows "parseInt s = Some (int (radix_value 10 s))"
    and "parseInt (CHR ''-'' # s) = Some (- int (radix_value 10 s))"
proof -
  obtain c r where s: "s = c # r" using assms(2) by (cases s) auto
  have c: "is_radix_digit 10 c" using assms(1) s by simp
  have sp: "\<not> is_space c" "c \<noteq> CHR ''-''" "c \<noteq> CHR ''+''"
    using digit_not_special [OF c] by simp_all
  have tw: "takeWhile (is_radix_digit 10) s = s" by (rule takeWhile_all [OF assms(1)])
  have m: "\<not> is_space CHR ''-''" by (simp add: is_space_def)
  have d: "dropWhile is_space s = s" using sp s by simp
  have n: "(case s of [] \<Rightarrow> False | c # _ \<Rightarrow> c = CHR ''-'') = False" using sp s by simp
  have g: "(case s of [] \<Rightarrow> [] | c # r \<Rightarrow> if c = CHR ''-'' \<or> c = CHR ''+'' then r else s) = s"
    using sp s by simp
  show "parseInt s = Some (int (radix_value 10 s))"
    unfolding parseInt_def Let_def d n g no_hex_prefix [OF assms(1)] using assms(2)
    by (simp add: tw)
  show "parseInt (CHR ''-'' # s) = Some (- int (radix_value 10 s))"
    unfolding parseInt_def Let_def using m assms(2) no_hex_prefix [OF assms(1)]
    by (simp add: tw)
qed

lemma parseInt_show_int: "parseInt (show_int i) = Some i"
  using parseInt_digits [OF dec_digits_all_digits dec_digits_not_empty]
  by (simp add: show_int_def radix_value_dec_digits)

section \<open>Facts about the store's commands\<close>

lemmas store_defs = value_at_def deadline_at_def count_at_def field_count_at_def
  expire_if_needed_def remove_key_def

lemma setnx_absent:
  assumes "value_at st k = None"
  shows "fst (redis_setnx k v st) = Inr 1"
    and "value_at (snd (redis_setnx k v st)) k = Some (RString v)"
    and "deadline_at (snd (redis_setnx k v st)) k = None"
    and "clock (snd (redis_setnx k v st)) = clock st"
  using assms
  by (auto simp: redis_setnx_def Let_def store_defs split: option.splits if_splits)

lemma setnx_present: "value_at st k \<noteq> None \<Longrightarrow> redis_setnx k v st = (Inr 0, st)"
  by (auto simp: redis_setnx_def Let_def store_defs split: option.splits if_splits)

lemma expire_positive:
  assumes "value_at st k \<noteq> None" "0 < s"
  shows "fst (redis_expire k s st) = Inr 1"
    and "value_at (snd (redis_expire k s st)) k = value_at st k"
    and "deadline_at (snd (redis_expire k s st)) k = Some (clock st + s)"
    and "clock (snd (redis_expire k s st)) = clock st"
  using assms
  by (auto simp: redis_expire_def Let_def store_defs split: option.splits if_splits)

lemma expire_nonpositive:
  assumes "value_at st k \<noteq> None" "s \<le> 0"
  shows "value_at (snd (redis_expire k s st)) k = None"
    and "clock (snd (redis_expire k s st)) = clock st"
  using assms
  by (auto simp: redis_expire_def Let_def store_defs split: option.splits if_splits)

lemma advance_past_deadline:
  "deadline_at st k = Some dl \<Longrightarrow> dl \<le> clock st + int d \<Longrightarrow> value_at (advance d st) k = None"
  by (auto simp: advance_def store_defs split: option.splits if_splits)

lemma advance_absent: "value_at st k = None \<Longrightarrow> value_at (advance d st) k = None"
  by (auto simp: advance_def store_defs split: option.splits if_splits)

lemma incrby_count:
  assumes "count_at st k = Some v"
  shows "fst (redis_incrby k n st) = Inr (v + n)"
    and "value_at (snd (redis_incrby k n st)) k = Some (RString (show_int (v + n)))"
    and "clock (snd (redis_incrby k n st)) = clock st"
  using assms
  by (auto simp: redis_incrby_def Let_def store_defs split: option.splits if_splits rval.splits)

lemma incrby_deadline:
  assumes "count_at st k = Some v"
  shows "deadline_at (snd (redis_incrby k n st)) k = deadline_at st k"
  using assms
  by (auto simp: redis_incrby_def Let_def store_defs split: option.splits if_splits rval.splits)

lemma count_at_show_int: "value_at st k = Some (RString (show_int v)) \<Longrightarrow> count_at st k = Some v"
  by (simp add: count_at_def string2ll_show_int)

lemma hincrby_count:
  assumes "field_count_at st k f = Some v"
  shows "fst (redis_hincrby k f n st) = Inr (v + n)"
    and "field_count_at (snd (redis_hincrby k f n st)) k f = Some (v + n)"
  using assms
  by (auto simp: redis_hincrby_def Let_def store_defs string2ll_show_int split: option.splits if_splits rval.splits)

lemma set_value:
  "fst (redis_set k v st) = Inr ()"
  "value_at (snd (redis_set k v st)) k = Some (RString v)"
  "deadline_at (snd (redis_set k v st)) k = None"
  by (auto simp: redis_set_def store_defs)

lemma get_string:
  "value_at st k = Some (RString s) \<Longrightarrow> redis_get k st = (Inr (Some s), st)"
  by (auto simp: redis_get_def Let_def store_defs split: option.splits if_splits)

section \<open>Facts about the client's plumbing\<close>

lemma issue_simps:
  "fst (issue c run io) = fst (run (db io))"
  "db (snd (issue c run io)) = snd (run (db io))"
  "sent (snd (issue c run io)) = sent io @ [c]"
  by (simp_all add: issue_def split: prod.splits)

lemma await_Inr: "fst (m io) = Inr v \<Longrightarrow> await m f io = f v (snd (m io))"
  by (cases "m io") (simp add: await_def)

lemma issue_eq:
  "issue c run io = (fst (run (db io)), \<lparr>db = snd (run (db io)), sent = sent io @ [c]\<rparr>)"
  by (simp add: issue_def split: prod.splits)

lemma truthy_simps:
  "truthy None = None"
  "truthy (Some 0) = None"
  "a \<noteq> 0 \<Longrightarrow> truthy (Some a) = Some a"
  by (simp_all add: truthy_def)

lemma lock_when_free:
  assumes "value_at (db io) key = None"
  shows "lock key secs io =
     (Inr (Some \<lparr>lock_key = key\<rparr>),
      \<lparr>db = effect (EXPIRE key (case secs of None \<Rightarrow> 30 | Some s \<Rightarrow> s))
              (effect (SETNX key ''locked'') (db io)),
       sent = sent io @ [SETNX key ''locked'', EXPIRE key (case secs of None \<Rightarrow> 30 | Some s \<Rightarrow> s)]\<rparr>)"
proof -
  have "fst (ioredis_setnx key ''locked'' io) = Inr 1"
    using setnx_absent(1) [OF assms] by (simp add: ioredis_setnx_def issue_simps)
  then show ?thesis
    by (simp add: lock_def await_Inr return_def unawaited_def ioredis_expire_def ioredis_setnx_def
        issue_def split: prod.splits)
qed

lemma lock_when_held:
  assumes "value_at (db io) key \<noteq> None"
  shows "lock key secs io = (Inr None, \<lparr>db = db io, sent = sent io @ [SETNX key ''locked'']\<rparr>)"
proof -
  have "ioredis_setnx key ''locked'' io = (Inr 0, \<lparr>db = db io, sent = sent io @ [SETNX key ''locked'']\<rparr>)"
    using setnx_present [OF assms] by (simp add: ioredis_setnx_def issue_def)
  then show ?thesis
    by (simp add: lock_def await_def return_def)
qed

section \<open>Facts about the lock\<close>

lemma lock_succeeds_iff_free:
  "(fst (lock key secs io) = Inr (Some h)) = (value_at (db io) key = None \<and> h = \<lparr>lock_key = key\<rparr>)"
proof (cases "value_at (db io) key = None")
  case True
  then show ?thesis by (auto simp: lock_when_free)
next
  case False
  then show ?thesis by (simp add: lock_when_held)
qed

lemma elapse_simps:
  "db (elapse d io) = advance d (db io)"
  "sent (elapse d io) = sent io"
  by (simp_all add: elapse_def)

lemma locked_after_setnx:
  assumes "value_at st key = None"
  shows "value_at (effect (SETNX key v) st) key = Some (RString v)"
    and "deadline_at (effect (SETNX key v) st) key = None"
    and "clock (effect (SETNX key v) st) = clock st"
  using setnx_absent [OF assms] by simp_all

lemma gone_after_ttl:
  assumes "value_at st key \<noteq> None" "ttl \<le> int d"
  shows "value_at (advance d (effect (EXPIRE key ttl) st)) key = None"
proof (cases "0 < ttl")
  case True
  have "deadline_at (effect (EXPIRE key ttl) st) key = Some (clock st + ttl)"
    using expire_positive(3) [OF assms(1) True] by simp
  moreover have "clock (effect (EXPIRE key ttl) st) = clock st"
    using expire_positive(4) [OF assms(1) True] by simp
  ultimately show ?thesis using assms(2) by (simp add: advance_past_deadline)
next
  case False
  then have "value_at (effect (EXPIRE key ttl) st) key = None"
    using expire_nonpositive(1) [OF assms(1)] by simp
  then show ?thesis by (rule advance_absent)
qed

section \<open>The counter\<close>

text \<open>
  C7. Constructing a counter on a key sets the stored value to the initial value, or to
  0 when none is given, whatever the key held before: the constructor sends one
  \<^verbatim>\<open>SET\<close>, which the store never refuses, and the key then holds the decimal text
  of that value.
\<close>

theorem counter_overwrites_on_construct:
  "fst (counter key val io) = Inr \<lparr>counter_key = key\<rparr> \<and>
   value_at (db (snd (counter key val io))) key
     = Some (RString (show_int (case val of None \<Rightarrow> 0 | Some v \<Rightarrow> v))) \<and>
   count_at (db (snd (counter key val io))) key = Some (case val of None \<Rightarrow> 0 | Some v \<Rightarrow> v) \<and>
   sent (snd (counter key val io))
     = sent io @ [SET key (show_int (case val of None \<Rightarrow> 0 | Some v \<Rightarrow> v))]"
proof -
  let ?s = "show_int (case val of None \<Rightarrow> 0 | Some v \<Rightarrow> v)"
  have c: "counter key val io = (Inr \<lparr>counter_key = key\<rparr>, snd (ioredis_set key ?s io))"
    by (simp add: counter_def await_Inr [where v = "()"] ioredis_set_def issue_simps set_value return_def)
  have v: "value_at (db (snd (ioredis_set key ?s io))) key = Some (RString ?s)"
    by (simp add: ioredis_set_def issue_simps set_value)
  show ?thesis
    using v count_at_show_int [OF v]
    by (simp add: c) (simp add: ioredis_set_def issue_simps)
qed

section \<open>The lock\<close>

text \<open>
  C10. When \<^verbatim>\<open>lock(key)\<close> succeeds and the seconds argument was omitted, the key's
  expiry is 30 seconds: the deadline of the key is the time of the call plus 30, set by
  the command \<^verbatim>\<open>EXPIRE key 30\<close>.
\<close>

theorem lock_default_expiry:
  assumes "fst (lock key None io) = Inr (Some h)"
  shows "deadline_at (db (snd (lock key None io))) key = Some (clock (db io) + 30) \<and>
         sent (snd (lock key None io)) = sent io @ [SETNX key ''locked'', EXPIRE key 30]"
proof -
  have free: "value_at (db io) key = None"
  proof (rule ccontr)
    assume "value_at (db io) key \<noteq> None"
    from lock_when_held [OF this] assms show False by simp
  qed
  let ?st1 = "snd (redis_setnx key ''locked'' (db io))"
  have p: "value_at ?st1 key \<noteq> None" using setnx_absent(2) [OF free] by simp
  have "deadline_at (snd (redis_expire key 30 ?st1)) key = Some (clock ?st1 + 30)"
    by (rule expire_positive(3) [OF p]) simp
  then show ?thesis
    using setnx_absent(4) [OF free] by (simp add: lock_when_free [OF free])
qed

theorem lock_default_expiry_witness:
  "fst (lock ''job'' None fresh) = Inr (Some \<lparr>lock_key = ''job''\<rparr>) \<and>
   deadline_at (db (snd (lock ''job'' None fresh))) ''job'' = Some 30 \<and>
   sent (snd (lock ''job'' None fresh)) = [SETNX ''job'' ''locked'', EXPIRE ''job'' 30]"
proof -
  have f: "value_at (db fresh) ''job'' = None"
    by (simp add: fresh_def value_at_def expire_if_needed_def)
  have h: "fst (lock ''job'' None fresh) = Inr (Some \<lparr>lock_key = ''job''\<rparr>)"
    by (simp add: lock_when_free [OF f])
  show ?thesis
    using h lock_default_expiry [OF h] by (simp add: fresh_def)
qed

text \<open>
  C1, as the code has it. A successful \<^verbatim>\<open>lock(key, seconds)\<close> sends two store
  commands, not one: \<^verbatim>\<open>SETNX key "locked"\<close> and then, without awaiting it,
  \<^verbatim>\<open>EXPIRE key ttl\<close>, where \<open>ttl\<close> is \<^verbatim>\<open>seconds ?? 30\<close>. Between the two
  the key is held and carries no expiry. Once both have run, a positive \<open>ttl\<close> leaves
  the key held with deadline now + \<open>ttl\<close>, and in every case the key is free again as
  soon as \<open>ttl\<close> seconds have passed with no release: another caller's
  \<^verbatim>\<open>lock\<close> on it then succeeds.
\<close>

theorem lock_two_commands_then_expiry:
  assumes "fst (lock key secs io) = Inr (Some h)"
  shows "sent (snd (lock key secs io))
           = sent io @ [SETNX key ''locked'', EXPIRE key (case secs of None \<Rightarrow> 30 | Some s \<Rightarrow> s)] \<and>
         db (snd (lock key secs io))
           = effect (EXPIRE key (case secs of None \<Rightarrow> 30 | Some s \<Rightarrow> s))
               (effect (SETNX key ''locked'') (db io)) \<and>
         value_at (effect (SETNX key ''locked'') (db io)) key = Some (RString ''locked'') \<and>
         deadline_at (effect (SETNX key ''locked'') (db io)) key = None \<and>
         (0 < (case secs of None \<Rightarrow> 30 | Some s \<Rightarrow> s) \<longrightarrow>
            value_at (db (snd (lock key secs io))) key = Some (RString ''locked'') \<and>
            deadline_at (db (snd (lock key secs io))) key
              = Some (clock (db io) + (case secs of None \<Rightarrow> 30 | Some s \<Rightarrow> s))) \<and>
         (\<forall>d secs'. (case secs of None \<Rightarrow> 30 | Some s \<Rightarrow> s) \<le> int d \<longrightarrow>
            value_at (db (elapse d (snd (lock key secs io)))) key = None \<and>
            fst (lock key secs' (elapse d (snd (lock key secs io)))) = Inr (Some \<lparr>lock_key = key\<rparr>))"
proof -
  let ?ttl = "case secs of None \<Rightarrow> 30 | Some s \<Rightarrow> s"
  let ?st1 = "effect (SETNX key ''locked'') (db io)"
  have free: "value_at (db io) key = None"
    using assms by (simp add: lock_succeeds_iff_free)
  have l: "lock key secs io =
     (Inr (Some \<lparr>lock_key = key\<rparr>),
      \<lparr>db = effect (EXPIRE key ?ttl) ?st1, sent = sent io @ [SETNX key ''locked'', EXPIRE key ?ttl]\<rparr>)"
    by (rule lock_when_free [OF free])
  have v1: "value_at ?st1 key = Some (RString ''locked'')"
    and d1: "deadline_at ?st1 key = None"
    and c1: "clock ?st1 = clock (db io)"
    using locked_after_setnx [OF free] by simp_all
  have p1: "value_at ?st1 key \<noteq> None" using v1 by simp
  have pos: "0 < ?ttl \<longrightarrow>
      value_at (effect (EXPIRE key ?ttl) ?st1) key = Some (RString ''locked'') \<and>
      deadline_at (effect (EXPIRE key ?ttl) ?st1) key = Some (clock (db io) + ?ttl)"
    using expire_positive(2,3) [OF p1] v1 c1 by simp
  have again: "\<forall>d secs'. ?ttl \<le> int d \<longrightarrow>
      value_at (db (elapse d (snd (lock key secs io)))) key = None \<and>
      fst (lock key secs' (elapse d (snd (lock key secs io)))) = Inr (Some \<lparr>lock_key = key\<rparr>)"
  proof (intro allI impI)
    fix d :: nat and secs' :: "int option"
    assume "?ttl \<le> int d"
    then have g: "value_at (db (elapse d (snd (lock key secs io)))) key = None"
      using gone_after_ttl [OF p1] by (simp add: l elapse_simps)
    then show "value_at (db (elapse d (snd (lock key secs io)))) key = None \<and>
      fst (lock key secs' (elapse d (snd (lock key secs io)))) = Inr (Some \<lparr>lock_key = key\<rparr>)"
      by (simp add: lock_when_free)
  qed
  show ?thesis using v1 d1 pos again by (simp add: l)
qed

theorem lock_two_commands_then_expiry_witness:
  "fst (lock ''job'' (Some 10) fresh) = Inr (Some \<lparr>lock_key = ''job''\<rparr>) \<and>
   sent (snd (lock ''job'' (Some 10) fresh)) = [SETNX ''job'' ''locked'', EXPIRE ''job'' 10] \<and>
   deadline_at (db (snd (lock ''job'' (Some 10) fresh))) ''job'' = Some 10 \<and>
   value_at (db (elapse 10 (snd (lock ''job'' (Some 10) fresh)))) ''job'' = None \<and>
   fst (lock ''job'' (Some 10) (elapse 10 (snd (lock ''job'' (Some 10) fresh))))
     = Inr (Some \<lparr>lock_key = ''job''\<rparr>)"
proof -
  have f: "value_at (db fresh) ''job'' = None"
    by (simp add: fresh_def value_at_def expire_if_needed_def)
  have h: "fst (lock ''job'' (Some 10) fresh) = Inr (Some \<lparr>lock_key = ''job''\<rparr>)"
    by (simp add: lock_when_free [OF f])
  have c: "clock (db fresh) = 0" "sent fresh = []" by (simp_all add: fresh_def)
  note t = lock_two_commands_then_expiry [OF h]
  have s: "sent (snd (lock ''job'' (Some 10) fresh)) = [SETNX ''job'' ''locked'', EXPIRE ''job'' 10]"
    using t [THEN conjunct1] c by simp
  have d: "deadline_at (db (snd (lock ''job'' (Some 10) fresh))) ''job'' = Some 10"
    using t [THEN conjunct2, THEN conjunct2, THEN conjunct2, THEN conjunct2, THEN conjunct1] c
    by simp
  have a: "value_at (db (elapse 10 (snd (lock ''job'' (Some 10) fresh)))) ''job'' = None \<and>
      fst (lock ''job'' (Some 10) (elapse 10 (snd (lock ''job'' (Some 10) fresh))))
        = Inr (Some \<lparr>lock_key = ''job''\<rparr>)"
    using t [THEN conjunct2, THEN conjunct2, THEN conjunct2, THEN conjunct2, THEN conjunct2,
        THEN spec, THEN spec, of 10 "Some 10"]
    by simp
  show ?thesis using h s d a by simp
qed

text \<open>
  C1 as stated fails: the key and its expiry are not set by one command. On an empty
  store \<^verbatim>\<open>lock("job", 10)\<close> sends two commands; after the first the key is held
  with no expiry, and if the second never arrives it is still held 10 seconds later.
\<close>

theorem lock_not_atomic_counterexample:
  "sent (snd (lock ''job'' (Some 10) fresh)) = [SETNX ''job'' ''locked'', EXPIRE ''job'' 10] \<and>
   value_at (effect (SETNX ''job'' ''locked'') (db fresh)) ''job'' = Some (RString ''locked'') \<and>
   deadline_at (effect (SETNX ''job'' ''locked'') (db fresh)) ''job'' = None \<and>
   value_at (advance 10 (effect (SETNX ''job'' ''locked'') (db fresh))) ''job''
     = Some (RString ''locked'')"
  by (simp add: lock_def await_def return_def unawaited_def ioredis_setnx_def ioredis_expire_def
      issue_def redis_setnx_def redis_expire_def fresh_def advance_def store_defs Let_def)

text \<open>
  C8. \<^verbatim>\<open>lock\<close> returns null exactly when the key is present, which is exactly
  when \<^verbatim>\<open>SETNX\<close> answers 0; it never ends in an error; and when the key is present
  the store is left as it was, the one command sent being the \<^verbatim>\<open>SETNX\<close>.
\<close>

theorem lock_busy_returns_null:
  "(fst (lock key secs io) = Inr None) = (value_at (db io) key \<noteq> None) \<and>
   (fst (lock key secs io) = Inr None) = (fst (redis_setnx key ''locked'' (db io)) = Inr 0) \<and>
   (\<forall>e. fst (lock key secs io) \<noteq> Inl e) \<and>
   (value_at (db io) key \<noteq> None \<longrightarrow>
      db (snd (lock key secs io)) = db io \<and>
      sent (snd (lock key secs io)) = sent io @ [SETNX key ''locked''])"
proof (cases "value_at (db io) key = None")
  case True
  then show ?thesis
    using setnx_absent(1) [OF True, of "''locked''"] by (simp add: lock_when_free)
next
  case False
  then show ?thesis
    by (simp add: lock_when_held setnx_present)
qed

theorem lock_busy_returns_null_witness:
  "value_at (db (snd (lock ''job'' (Some 30) fresh))) ''job'' = Some (RString ''locked'') \<and>
   fst (lock ''job'' (Some 30) (snd (lock ''job'' (Some 30) fresh))) = Inr None \<and>
   db (snd (lock ''job'' (Some 30) (snd (lock ''job'' (Some 30) fresh))))
     = db (snd (lock ''job'' (Some 30) fresh)) \<and>
   sent (snd (lock ''job'' (Some 30) (snd (lock ''job'' (Some 30) fresh))))
     = [SETNX ''job'' ''locked'', EXPIRE ''job'' 30, SETNX ''job'' ''locked'']"
proof -
  have v: "value_at (db (snd (lock ''job'' (Some 30) fresh))) ''job'' = Some (RString ''locked'')"
    by (simp add: lock_def await_def return_def unawaited_def ioredis_setnx_def ioredis_expire_def
      issue_def redis_setnx_def redis_expire_def fresh_def store_defs Let_def)
  have s: "sent (snd (lock ''job'' (Some 30) fresh)) = [SETNX ''job'' ''locked'', EXPIRE ''job'' 30]"
    by (simp add: lock_def await_def return_def unawaited_def ioredis_setnx_def ioredis_expire_def
      issue_def redis_setnx_def redis_expire_def fresh_def store_defs Let_def)
  show ?thesis
    using v s lock_busy_returns_null [of "''job''" "Some 30" "snd (lock ''job'' (Some 30) fresh)"]
    by simp
qed

text \<open>
  C3, as the code has it. No constructor checks its arguments. Whatever the seconds
  argument, \<^verbatim>\<open>lock\<close> never fails with \<open>InvalidArgument\<close> and its first act is to
  send \<^verbatim>\<open>SETNX\<close>; on a free key it returns a handle after sending
  \<^verbatim>\<open>EXPIRE key ttl\<close> too, and a \<open>ttl\<close> that is not positive makes the store
  delete the key at once. \<^verbatim>\<open>throttle\<close> returns a handle for every capacity and
  every window.
\<close>

theorem lock_never_rejects_arguments:
  "fst (lock key secs io) \<noteq> Inl InvalidArgument \<and>
   take (Suc (length (sent io))) (sent (snd (lock key secs io))) = sent io @ [SETNX key ''locked''] \<and>
   (value_at (db io) key = None \<longrightarrow>
      fst (lock key secs io) = Inr (Some \<lparr>lock_key = key\<rparr>) \<and>
      sent (snd (lock key secs io))
        = sent io @ [SETNX key ''locked'', EXPIRE key (case secs of None \<Rightarrow> 30 | Some s \<Rightarrow> s)] \<and>
      ((case secs of None \<Rightarrow> 30 | Some s \<Rightarrow> s) \<le> 0 \<longrightarrow>
         value_at (db (snd (lock key secs io))) key = None)) \<and>
   throttle tkey maxV wsecs val
     = Inr \<lparr>throttle_key = tkey, maxValue = maxV,
            seconds = (case wsecs of None \<Rightarrow> 60 | Some s \<Rightarrow> s)\<rparr>"
proof (cases "value_at (db io) key = None")
  case True
  have p1: "value_at (effect (SETNX key ''locked'') (db io)) key \<noteq> None"
    using locked_after_setnx(1) [OF True, of "''locked''"] by simp
  show ?thesis
    using True expire_nonpositive(1) [OF p1]
    by (simp add: lock_when_free throttle_def)
next
  case False
  then show ?thesis by (auto simp: lock_when_held throttle_def)
qed

theorem lock_never_rejects_arguments_witness:
  "value_at (db fresh) ''job'' = None \<and>
   fst (lock ''job'' (Some 0) fresh) = Inr (Some \<lparr>lock_key = ''job''\<rparr>) \<and>
   sent (snd (lock ''job'' (Some 0) fresh)) = [SETNX ''job'' ''locked'', EXPIRE ''job'' 0] \<and>
   value_at (db (snd (lock ''job'' (Some 0) fresh))) ''job'' = None \<and>
   throttle ''api'' 0 (Some 0) None = Inr \<lparr>throttle_key = ''api'', maxValue = 0, seconds = 0\<rparr>"
proof -
  have f: "value_at (db fresh) ''job'' = None"
    by (simp add: fresh_def value_at_def expire_if_needed_def)
  have c: "sent fresh = []" by (simp add: fresh_def)
  show ?thesis
    using f c lock_never_rejects_arguments [where key = "''job''" and secs = "Some 0" and io = fresh
        and tkey = "''api''" and maxV = 0 and wsecs = "Some 0" and val = None]
    by simp
qed

text \<open>
  C3 as stated fails: \<^verbatim>\<open>lock("job", 0)\<close> and \<^verbatim>\<open>lock("job", -5)\<close> on an empty
  store return a handle, the former after two store commands, and a throttle with
  capacity 0 or window 0 is constructed without error.
\<close>

theorem no_argument_check_counterexample:
  "fst (lock ''job'' (Some 0) fresh) = Inr (Some \<lparr>lock_key = ''job''\<rparr>) \<and>
   sent (snd (lock ''job'' (Some 0) fresh)) = [SETNX ''job'' ''locked'', EXPIRE ''job'' 0] \<and>
   fst (lock ''job'' (Some (- 5)) fresh) = Inr (Some \<lparr>lock_key = ''job''\<rparr>) \<and>
   throttle ''api'' 0 (Some 60) None = Inr \<lparr>throttle_key = ''api'', maxValue = 0, seconds = 60\<rparr> \<and>
   throttle ''api'' 1000 (Some 0) None = Inr \<lparr>throttle_key = ''api'', maxValue = 1000, seconds = 0\<rparr>"
  by (simp add: lock_def await_def return_def unawaited_def ioredis_setnx_def ioredis_expire_def
      issue_def redis_setnx_def redis_expire_def fresh_def store_defs Let_def throttle_def)

section \<open>The serial-number allocator\<close>

lemma push_range_upto: "push_range i num s = s @ [i..num]"
proof (induction i num s rule: push_range.induct)
  case (1 i num s)
  show ?case
  proof (cases "i \<le> num")
    case True
    with 1 show ?thesis
      by (subst push_range.simps) (simp add: upto_rec1 [of i num])
  next
    case False
    then show ?thesis by (subst push_range.simps) simp
  qed
qed

lemma getOne_eq:
  assumes "field_count_at (db io) (serial_key h) field = Some n"
  shows "getOne h field io
    = (Inr (n + 1), \<lparr>db = effect (HINCRBY (serial_key h) field 1) (db io),
                     sent = sent io @ [HINCRBY (serial_key h) field 1]\<rparr>)"
  using hincrby_count(1) [OF assms, of 1]
  by (simp add: getOne_def ioredis_hincrby_def issue_eq await_def return_def)

lemma getMany_eq:
  assumes "field_count_at (db io) (serial_key h) field = Some n"
  shows "getMany h field count io
    = (Inr [n + count - count + 1..n + count],
       \<lparr>db = effect (HINCRBY (serial_key h) field count) (db io),
        sent = sent io @ [HINCRBY (serial_key h) field count]\<rparr>)"
  using hincrby_count(1) [OF assms, of count]
  by (simp add: getMany_def ioredis_hincrby_def issue_eq await_def return_def push_range_upto)

lemma field_count_after:
  assumes "field_count_at st k f = Some n"
  shows "field_count_at (effect (HINCRBY k f c) st) k f = Some (n + c)"
  using hincrby_count(2) [OF assms] by simp

text \<open>
  C5. Let the hash field hold \<open>n\<close> (0 when it is fresh). \<^verbatim>\<open>getOne(field)\<close> sends one
  \<^verbatim>\<open>HINCRBY key field 1\<close> and returns the new value \<open>n + 1\<close>. For a count of at
  least 1, \<^verbatim>\<open>getMany(field, count)\<close> sends one \<^verbatim>\<open>HINCRBY key field count\<close>, after
  which the field holds \<open>v = n + count\<close>, and returns the \<open>count\<close> consecutive integers
  from \<open>v - count + 1\<close> to \<open>v\<close>. On a fresh field \<^verbatim>\<open>getOne\<close> returns 1, then 2,
  and \<^verbatim>\<open>getMany(field, 5)\<close> after them returns 3, 4, 5, 6, 7.
\<close>

theorem serial_allocates_consecutive_range:
  assumes "field_count_at (db io) (serial_key h) field = Some n"
  shows "fst (getOne h field io) = Inr (n + 1) \<and>
         field_count_at (db (snd (getOne h field io))) (serial_key h) field = Some (n + 1) \<and>
         sent (snd (getOne h field io)) = sent io @ [HINCRBY (serial_key h) field 1] \<and>
         (1 \<le> count \<longrightarrow>
            fst (getMany h field count io) = Inr [n + count - count + 1..n + count] \<and>
            length [n + count - count + 1..n + count] = nat count \<and>
            field_count_at (db (snd (getMany h field count io))) (serial_key h) field
              = Some (n + count) \<and>
            sent (snd (getMany h field count io)) = sent io @ [HINCRBY (serial_key h) field count]) \<and>
         (n = 0 \<longrightarrow>
            (\<exists>io1 io2 io3.
               getOne h field io = (Inr 1, io1) \<and>
               getOne h field io1 = (Inr 2, io2) \<and>
               getMany h field 5 io2 = (Inr [3, 4, 5, 6, 7], io3)))"
proof -
  let ?k = "serial_key h"
  let ?io1 = "snd (getOne h field io)"
  let ?io2 = "snd (getOne h field ?io1)"
  have f1: "field_count_at (db ?io1) ?k field = Some (n + 1)"
    using field_count_after [OF assms] by (simp add: getOne_eq [OF assms])
  have f2: "field_count_at (db ?io2) ?k field = Some (n + 1 + 1)"
    using field_count_after [OF f1] by (simp add: getOne_eq [OF f1])
  have many: "field_count_at (db (snd (getMany h field count io))) ?k field = Some (n + count)"
    using field_count_after [OF assms] by (simp add: getMany_eq [OF assms])
  have up: "[3..7] = [3, 4, 5, 6, 7 :: int]" by (simp add: upto.simps)
  have scen: "n = 0 \<longrightarrow>
      getOne h field io = (Inr 1, ?io1) \<and>
      getOne h field ?io1 = (Inr 2, ?io2) \<and>
      getMany h field 5 ?io2 = (Inr [3, 4, 5, 6, 7], snd (getMany h field 5 ?io2))"
    using getOne_eq [OF assms] getOne_eq [OF f1] getMany_eq [OF f2, of 5] up by simp
  have "n = 0 \<longrightarrow> (\<exists>io1 io2 io3.
               getOne h field io = (Inr 1, io1) \<and>
               getOne h field io1 = (Inr 2, io2) \<and>
               getMany h field 5 io2 = (Inr [3, 4, 5, 6, 7], io3))"
    using scen by blast
  then show ?thesis
    using f1 many by (simp add: getOne_eq [OF assms] getMany_eq [OF assms])
qed

theorem serial_allocates_consecutive_range_witness:
  "field_count_at (db fresh) ''test:serial'' ''seq'' = Some 0 \<and>
   fst (getOne (serial ''test:serial'') ''seq'' fresh) = Inr 1 \<and>
   fst (getMany (serial ''test:serial'') ''seq'' 5 fresh) = Inr [1, 2, 3, 4, 5] \<and>
   (\<exists>io1 io2 io3.
      getOne (serial ''test:serial'') ''seq'' fresh = (Inr 1, io1) \<and>
      getOne (serial ''test:serial'') ''seq'' io1 = (Inr 2, io2) \<and>
      getMany (serial ''test:serial'') ''seq'' 5 io2 = (Inr [3, 4, 5, 6, 7], io3))"
proof -
  have f: "field_count_at (db fresh) (serial_key (serial ''test:serial'')) ''seq'' = Some 0"
    by (simp add: fresh_def serial_def store_defs)
  have k: "serial_key (serial ''test:serial'') = ''test:serial''" by (simp add: serial_def)
  have up: "[1..5] = [1, 2, 3, 4, 5 :: int]" by (simp add: upto.simps)
  note t = serial_allocates_consecutive_range [OF f, of 5]
  show ?thesis
    using f [unfolded k] t [THEN conjunct1]
      t [THEN conjunct2, THEN conjunct2, THEN conjunct2, THEN conjunct1]
      t [THEN conjunct2, THEN conjunct2, THEN conjunct2, THEN conjunct2] up
    by simp
qed

section \<open>Counter arithmetic\<close>

lemma counter_incr_eq:
  assumes "count_at (db io) (counter_key h) = Some v"
  shows "truthy c = Some a \<Longrightarrow> counter_incr h c io
       = (Inr (v + a), \<lparr>db = effect (INCRBY (counter_key h) a) (db io),
                        sent = sent io @ [INCRBY (counter_key h) a]\<rparr>)"
    and "truthy c = None \<Longrightarrow> counter_incr h c io
       = (Inr (v + 1), \<lparr>db = effect (INCR (counter_key h)) (db io),
                        sent = sent io @ [INCR (counter_key h)]\<rparr>)"
  using incrby_count(1) [OF assms]
  by (simp_all add: counter_incr_def ioredis_incrby_def ioredis_incr_def issue_eq await_def return_def)

lemma counter_decr_eq:
  assumes "count_at (db io) (counter_key h) = Some v"
  shows "truthy c = Some a \<Longrightarrow> counter_decr h c io
       = (Inr (v - a), \<lparr>db = effect (DECRBY (counter_key h) a) (db io),
                        sent = sent io @ [DECRBY (counter_key h) a]\<rparr>)"
    and "truthy c = None \<Longrightarrow> counter_decr h c io
       = (Inr (v - 1), \<lparr>db = effect (DECR (counter_key h)) (db io),
                        sent = sent io @ [DECR (counter_key h)]\<rparr>)"
  using incrby_count(1) [OF assms]
  by (simp_all add: counter_decr_def ioredis_decrby_def ioredis_decr_def issue_eq await_def return_def)

lemma value_after_incrby:
  assumes "count_at st k = Some v"
  shows "value_at (effect (INCRBY k a) st) k = Some (RString (show_int (v + a)))"
    and "value_at (effect (INCR k) st) k = Some (RString (show_int (v + 1)))"
    and "value_at (effect (DECRBY k a) st) k = Some (RString (show_int (v - a)))"
    and "value_at (effect (DECR k) st) k = Some (RString (show_int (v - 1)))"
  using incrby_count(2) [OF assms] by simp_all

lemma counter_do_positive:
  assumes "spec_positive x" "count_at (db io) (counter_key h) = Some v"
  shows "fst (counter_do h x io) = Inr (hd (spec_returns v [x])) \<and>
         value_at (db (snd (counter_do h x io))) (counter_key h)
           = Some (RString (show_int (hd (spec_returns v [x]))))"
proof (cases x)
  case (Incr c)
  show ?thesis
  proof (cases c)
    case None
    with Incr show ?thesis
      using counter_incr_eq(2) [OF assms(2), of None] value_after_incrby(2) [OF assms(2)]
      by (simp add: truthy_simps spec_amount_def)
  next
    case (Some a)
    with Incr assms(1) have "a \<noteq> 0" by (simp add: spec_amount_def)
    with Incr Some show ?thesis
      using counter_incr_eq(1) [OF assms(2), of "Some a" a] value_after_incrby(1) [OF assms(2)]
      by (simp add: truthy_simps spec_amount_def)
  qed
next
  case (Decr c)
  show ?thesis
  proof (cases c)
    case None
    with Decr show ?thesis
      using counter_decr_eq(2) [OF assms(2), of None] value_after_incrby(4) [OF assms(2)]
      by (simp add: truthy_simps spec_amount_def)
  next
    case (Some a)
    with Decr assms(1) have "a \<noteq> 0" by (simp add: spec_amount_def)
    with Decr Some show ?thesis
      using counter_decr_eq(1) [OF assms(2), of "Some a" a] value_after_incrby(3) [OF assms(2)]
      by (simp add: truthy_simps spec_amount_def)
  qed
qed

lemma spec_returns_step:
  "spec_returns v (x # xs) = hd (spec_returns v [x]) # spec_returns (hd (spec_returns v [x])) xs"
  by (cases x) simp_all

lemma spec_total_step:
  "v + sum_list (spec_incr_amounts (x # xs)) - sum_list (spec_decr_amounts (x # xs))
     = hd (spec_returns v [x]) + sum_list (spec_incr_amounts xs) - sum_list (spec_decr_amounts xs)"
  by (cases x) simp_all

lemma counter_calls_positive:
  assumes "list_all spec_positive xs" "value_at (db io) (counter_key h) = Some (RString (show_int v))"
  shows "fst (counter_calls h xs io) = Inr (spec_returns v xs) \<and>
         value_at (db (snd (counter_calls h xs io))) (counter_key h)
           = Some (RString (show_int (v + sum_list (spec_incr_amounts xs) - sum_list (spec_decr_amounts xs))))"
  using assms
proof (induction xs arbitrary: io v)
  case Nil
  then show ?case by (simp add: return_def)
next
  case (Cons x xs)
  let ?w = "hd (spec_returns v [x])"
  let ?io1 = "snd (counter_do h x io)"
  have c: "count_at (db io) (counter_key h) = Some v"
    by (rule count_at_show_int [OF Cons.prems(2)])
  have px: "spec_positive x" and pxs: "list_all spec_positive xs" using Cons.prems(1) by simp_all
  have step: "fst (counter_do h x io) = Inr ?w"
    and v1: "value_at (db ?io1) (counter_key h) = Some (RString (show_int ?w))"
    using counter_do_positive [OF px c] by simp_all
  have ih: "fst (counter_calls h xs ?io1) = Inr (spec_returns ?w xs)"
    and ihv: "value_at (db (snd (counter_calls h xs ?io1))) (counter_key h)
       = Some (RString (show_int (?w + sum_list (spec_incr_amounts xs) - sum_list (spec_decr_amounts xs))))"
    using Cons.IH [OF pxs v1] by simp_all
  have run: "counter_calls h (x # xs) io
      = (Inr (?w # spec_returns ?w xs), snd (counter_calls h xs ?io1))"
    by (simp add: await_Inr [where m = "counter_do h x" and io = io, OF step]
        await_Inr [where m = "counter_calls h xs" and io = ?io1, OF ih] return_def)
  show ?case
    unfolding run spec_total_step [of v x xs] using ihv spec_returns_step [of v x xs] by simp
qed

lemma counter_get_value:
  assumes "value_at (db io) (counter_key h) = Some (RString (show_int v))"
  shows "fst (counter_get h io) = Inr (Some v)"
  using get_string [OF assms]
  by (simp add: counter_get_def ioredis_get_def issue_eq await_def return_def parseInt_show_int)

text \<open>
  C6. Construct a counter with initial value \<open>I\<close> (0 when omitted) and make any
  sequence of \<^verbatim>\<open>incr\<close> and \<^verbatim>\<open>decr\<close> calls with positive amounts, an omitted
  amount being 1. Every call succeeds and returns the new value, and a \<^verbatim>\<open>get()\<close>
  after them returns \<open>I\<close> plus the sum of the increments' amounts minus the sum of the
  decrements' amounts. With initial value 99, \<^verbatim>\<open>incr()\<close> returns 100,
  \<^verbatim>\<open>incr(20)\<close> returns 120 and \<^verbatim>\<open>decr(33)\<close> returns 87.
\<close>

theorem counter_arithmetic:
  assumes "list_all spec_positive calls"
  shows "\<exists>h io0 io1.
     counter key val io = (Inr h, io0) \<and>
     counter_calls h calls io0 = (Inr (spec_returns (case val of None \<Rightarrow> 0 | Some v \<Rightarrow> v) calls), io1) \<and>
     fst (counter_get h io1)
       = Inr (Some ((case val of None \<Rightarrow> 0 | Some v \<Rightarrow> v)
                    + sum_list (spec_incr_amounts calls) - sum_list (spec_decr_amounts calls)))"
proof -
  let ?I = "case val of None \<Rightarrow> 0 | Some v \<Rightarrow> v"
  let ?h = "\<lparr>counter_key = key\<rparr>"
  let ?io0 = "snd (counter key val io)"
  let ?io1 = "snd (counter_calls ?h calls ?io0)"
  have c: "counter key val io = (Inr ?h, ?io0)"
    by (simp add: counter_def await_Inr [where v = "()"] ioredis_set_def issue_simps set_value return_def)
  have v0: "value_at (db ?io0) (counter_key ?h) = Some (RString (show_int ?I))"
    by (simp add: counter_def await_Inr [where v = "()"] ioredis_set_def issue_simps set_value return_def)
  note r = counter_calls_positive [OF assms v0]
  have run: "counter_calls ?h calls ?io0 = (Inr (spec_returns ?I calls), ?io1)"
    using r [THEN conjunct1] by (cases "counter_calls ?h calls ?io0") simp
  have g: "fst (counter_get ?h ?io1)
      = Inr (Some (?I + sum_list (spec_incr_amounts calls) - sum_list (spec_decr_amounts calls)))"
    by (rule counter_get_value [OF r [THEN conjunct2]])
  show ?thesis using c run g by blast
qed

theorem counter_arithmetic_witness:
  "list_all spec_positive [Incr None, Incr (Some 20), Decr (Some 33)] \<and>
   (\<exists>h io0 io1.
      counter ''cnt'' (Some 99) fresh = (Inr h, io0) \<and>
      counter_calls h [Incr None, Incr (Some 20), Decr (Some 33)] io0 = (Inr [100, 120, 87], io1) \<and>
      fst (counter_get h io1) = Inr (Some 87))"
proof -
  have p: "list_all spec_positive [Incr None, Incr (Some 20), Decr (Some 33)]"
    by (simp add: spec_amount_def)
  show ?thesis
    using p counter_arithmetic [OF p, of "''cnt''" "Some 99" fresh]
    by (simp add: spec_amount_def)
qed

section \<open>The throttle\<close>

lemma count_after_expire:
  assumes "value_at st k = Some (RString (show_int v))" "0 < s"
  shows "count_at (effect (EXPIRE k s) st) k = Some v"
proof -
  have "value_at st k \<noteq> None" using assms(1) by simp
  from expire_positive(2) [OF this assms(2)] assms(1)
  have "value_at (effect (EXPIRE k s) st) k = Some (RString (show_int v))" by simp
  then show ?thesis by (rule count_at_show_int)
qed

lemma await_expire:
  "await (ioredis_expire k s) (\<lambda>_. return b) io
     = (Inr b, \<lparr>db = effect (EXPIRE k s) (db io), sent = sent io @ [EXPIRE k s]\<rparr>)"
  by (auto simp: await_def return_def ioredis_expire_def issue_eq redis_expire_def Let_def
      split: option.splits sum.splits)

lemma throttle_incr_eq:
  assumes "count_at (db io) (throttle_key t) = Some n"
  shows "truthy c = Some a \<Longrightarrow> throttle_incr t c io
       = (Inr (maxValue t < n + a),
          if n + a = 1
          then \<lparr>db = effect (EXPIRE (throttle_key t) (seconds t))
                       (effect (INCRBY (throttle_key t) a) (db io)),
                sent = sent io @ [INCRBY (throttle_key t) a, EXPIRE (throttle_key t) (seconds t)]\<rparr>
          else \<lparr>db = effect (INCRBY (throttle_key t) a) (db io),
                sent = sent io @ [INCRBY (throttle_key t) a]\<rparr>)"
    and "truthy c = None \<Longrightarrow> throttle_incr t c io
       = (Inr (maxValue t < n + 1),
          if n + 1 = 1
          then \<lparr>db = effect (EXPIRE (throttle_key t) (seconds t))
                       (effect (INCR (throttle_key t)) (db io)),
                sent = sent io @ [INCR (throttle_key t), EXPIRE (throttle_key t) (seconds t)]\<rparr>
          else \<lparr>db = effect (INCR (throttle_key t)) (db io),
                sent = sent io @ [INCR (throttle_key t)]\<rparr>)"
proof -
  show "truthy c = Some a \<Longrightarrow> throttle_incr t c io
       = (Inr (maxValue t < n + a),
          if n + a = 1
          then \<lparr>db = effect (EXPIRE (throttle_key t) (seconds t))
                       (effect (INCRBY (throttle_key t) a) (db io)),
                sent = sent io @ [INCRBY (throttle_key t) a, EXPIRE (throttle_key t) (seconds t)]\<rparr>
          else \<lparr>db = effect (INCRBY (throttle_key t) a) (db io),
                sent = sent io @ [INCRBY (throttle_key t) a]\<rparr>)"
    unfolding throttle_incr_def await_expire using incrby_count(1) [OF assms, of a]
    by (simp add: ioredis_incrby_def issue_eq await_def return_def)
  show "truthy c = None \<Longrightarrow> throttle_incr t c io
       = (Inr (maxValue t < n + 1),
          if n + 1 = 1
          then \<lparr>db = effect (EXPIRE (throttle_key t) (seconds t))
                       (effect (INCR (throttle_key t)) (db io)),
                sent = sent io @ [INCR (throttle_key t), EXPIRE (throttle_key t) (seconds t)]\<rparr>
          else \<lparr>db = effect (INCR (throttle_key t)) (db io),
                sent = sent io @ [INCR (throttle_key t)]\<rparr>)"
    unfolding throttle_incr_def await_expire using incrby_count(1) [OF assms, of 1]
    by (auto simp: ioredis_incr_def issue_eq await_def return_def)
qed

lemma throttle_incr_count:
  assumes "count_at (db io) (throttle_key t) = Some n" "0 < seconds t"
  shows "truthy c = Some a \<Longrightarrow>
           fst (throttle_incr t c io) = Inr (maxValue t < n + a) \<and>
           count_at (db (snd (throttle_incr t c io))) (throttle_key t) = Some (n + a)"
    and "truthy c = None \<Longrightarrow>
           fst (throttle_incr t c io) = Inr (maxValue t < n + 1) \<and>
           count_at (db (snd (throttle_incr t c io))) (throttle_key t) = Some (n + 1)"
proof -
  note v = value_after_incrby [OF assms(1)]
  show "truthy c = Some a \<Longrightarrow>
           fst (throttle_incr t c io) = Inr (maxValue t < n + a) \<and>
           count_at (db (snd (throttle_incr t c io))) (throttle_key t) = Some (n + a)"
    using count_after_expire [OF v(1) assms(2), of a] count_at_show_int [OF v(1), of a]
    by (simp add: throttle_incr_eq(1) [OF assms(1)])
  show "truthy c = None \<Longrightarrow>
           fst (throttle_incr t c io) = Inr (maxValue t < n + 1) \<and>
           count_at (db (snd (throttle_incr t c io))) (throttle_key t) = Some (n + 1)"
    using count_after_expire [OF v(2) assms(2)] count_at_show_int [OF v(2)]
    by (simp add: throttle_incr_eq(2) [OF assms(1)])
qed

lemma truthy_single_unit: "single_unit c \<Longrightarrow> truthy c = (if c = None then None else Some 1)"
  by (auto simp: single_unit_def truthy_def)

lemma throttle_incr_single_unit:
  assumes "count_at (db io) (throttle_key t) = Some n" "0 < seconds t" "single_unit c"
  shows "fst (throttle_incr t c io) = Inr (maxValue t < n + 1)"
    and "count_at (db (snd (throttle_incr t c io))) (throttle_key t) = Some (n + 1)"
  using throttle_incr_count(1) [OF assms(1,2), of c 1] throttle_incr_count(2) [OF assms(1,2), of c]
    truthy_single_unit [OF assms(3)]
  by (cases "c = None"; simp)+

lemma throttle_incrs_single_units:
  assumes "list_all single_unit cs" "count_at (db io) (throttle_key t) = Some n" "0 < seconds t"
  shows "fst (throttle_incrs t cs io) = Inr (over_list (maxValue t) n (length cs))"
  using assms
proof (induction cs arbitrary: io n)
  case Nil
  then show ?case by (simp add: return_def)
next
  case (Cons c cs)
  let ?io1 = "snd (throttle_incr t c io)"
  have su: "single_unit c" and rest: "list_all single_unit cs" using Cons.prems(1) by simp_all
  have step: "fst (throttle_incr t c io) = Inr (maxValue t < n + 1)"
    and c1: "count_at (db ?io1) (throttle_key t) = Some (n + 1)"
    using throttle_incr_single_unit [OF Cons.prems(2,3) su] by simp_all
  have ih: "fst (throttle_incrs t cs ?io1) = Inr (over_list (maxValue t) (n + 1) (length cs))"
    by (rule Cons.IH [OF rest c1 Cons.prems(3)])
  show ?case
    by (simp add: await_Inr [where m = "throttle_incr t c" and io = io, OF step]
        await_Inr [where m = "throttle_incrs t cs" and io = ?io1, OF ih] return_def)
qed

lemma over_list_reaches: "n + int k = cap \<Longrightarrow> over_list cap n (Suc k) = replicate k False @ [True]"
proof (induction k arbitrary: n)
  case 0
  then show ?case by simp
next
  case (Suc k)
  from Suc.prems have "n + 1 + int k = cap" by simp
  then have ih: "over_list cap (n + 1) (Suc k) = replicate k False @ [True]" by (rule Suc.IH)
  have "over_list cap n (Suc (Suc k)) = (cap < n + 1) # over_list cap (n + 1) (Suc k)"
    by (simp only: over_list.simps)
  also have "\<dots> = False # replicate k False @ [True]"
    using Suc.prems by (simp only: ih) simp
  finally show ?case by simp
qed

text \<open>
  C4. For a throttle with a positive window on a key that is absent or holds a count,
  \<^verbatim>\<open>incr\<close> succeeds and returns true exactly when the count stored after the
  increment is greater than the capacity; the increment is applied whether or not the
  result is over, the stored count being the old one plus the amount (the amount given
  and not zero, or 1 when omitted). From a count of 0, with capacity \<open>C\<close>, the first
  \<open>C\<close> of \<open>C + 1\<close> single-unit increments return false and the last returns true.
\<close>

theorem throttle_incr_reports_over_capacity:
  assumes "count_at (db io) (throttle_key t) = Some n" and "0 < seconds t"
  shows "(\<exists>count io'.
            throttle_incr t c io = (Inr (maxValue t < count), io') \<and>
            count_at (db io') (throttle_key t) = Some count \<and>
            (c \<noteq> Some 0 \<longrightarrow> count = n + spec_amount c)) \<and>
         (n = 0 \<and> maxValue t = int C \<and> list_all single_unit cs \<and> length cs = Suc C \<longrightarrow>
            fst (throttle_incrs t cs io) = Inr (replicate C False @ [True]))"
proof -
  let ?io' = "snd (throttle_incr t c io)"
  have one: "\<exists>count io'.
            throttle_incr t c io = (Inr (maxValue t < count), io') \<and>
            count_at (db io') (throttle_key t) = Some count \<and>
            (c \<noteq> Some 0 \<longrightarrow> count = n + spec_amount c)"
  proof (cases "truthy c")
    case None
    then have a: "c \<noteq> Some 0 \<longrightarrow> n + 1 = n + spec_amount c"
      by (cases c) (simp_all add: truthy_def spec_amount_def split: if_splits)
    have "throttle_incr t c io = (Inr (maxValue t < n + 1), ?io')"
      using throttle_incr_count(2) [OF assms None] by (cases "throttle_incr t c io") simp
    with throttle_incr_count(2) [OF assms None] a show ?thesis by blast
  next
    case (Some a)
    then have a: "n + a = n + spec_amount c"
      by (cases c) (simp_all add: truthy_def spec_amount_def split: if_splits)
    have "throttle_incr t c io = (Inr (maxValue t < n + a), ?io')"
      using throttle_incr_count(1) [OF assms Some] by (cases "throttle_incr t c io") simp
    with throttle_incr_count(1) [OF assms Some] a show ?thesis by blast
  qed
  have many: "n = 0 \<and> maxValue t = int C \<and> list_all single_unit cs \<and> length cs = Suc C \<longrightarrow>
            fst (throttle_incrs t cs io) = Inr (replicate C False @ [True])"
  proof
    assume h: "n = 0 \<and> maxValue t = int C \<and> list_all single_unit cs \<and> length cs = Suc C"
    then have su: "list_all single_unit cs" by simp
    have "fst (throttle_incrs t cs io) = Inr (over_list (maxValue t) n (length cs))"
      by (rule throttle_incrs_single_units [OF su assms])
    moreover have "over_list (int C) 0 (Suc C) = replicate C False @ [True]"
      by (rule over_list_reaches) simp
    ultimately show "fst (throttle_incrs t cs io) = Inr (replicate C False @ [True])"
      using h by (simp del: over_list.simps)
  qed
  from one many show ?thesis by blast
qed

theorem throttle_incr_reports_over_capacity_witness:
  "count_at (db fresh) ''api'' = Some 0 \<and>
   (\<exists>count io'.
      throttle_incr \<lparr>throttle_key = ''api'', maxValue = 3, seconds = 60\<rparr> (Some 5) fresh
        = (Inr (3 < count), io') \<and>
      count_at (db io') ''api'' = Some count \<and> count = 5) \<and>
   fst (throttle_incrs \<lparr>throttle_key = ''api'', maxValue = 3, seconds = 60\<rparr>
          [None, Some 1, None, None] fresh)
     = Inr [False, False, False, True]"
proof -
  let ?t = "\<lparr>throttle_key = ''api'', maxValue = 3, seconds = 60\<rparr>"
  have f: "count_at (db fresh) (throttle_key ?t) = Some 0"
    by (simp add: fresh_def store_defs)
  have s: "0 < seconds ?t" by simp
  note w = throttle_incr_reports_over_capacity [OF f s, of "Some 5" 3 "[None, Some 1, None, None]"]
  have a: "\<exists>count io'.
      throttle_incr ?t (Some 5) fresh = (Inr (3 < count), io') \<and>
      count_at (db io') ''api'' = Some count \<and> count = 5"
    using w [THEN conjunct1] by (simp add: spec_amount_def)
  have b: "fst (throttle_incrs ?t [None, Some 1, None, None] fresh) = Inr [False, False, False, True]"
    using w [THEN conjunct2] by (simp add: single_unit_def numeral_3_eq_3)
  show ?thesis using f a b by simp
qed

text \<open>
  C2, at the input where the code departs from it. On an absent key, a throttle with a
  window of 60 seconds and \<^verbatim>\<open>incr(5)\<close>: the count becomes 5, which is the amount,
  so the increment created the key; the code compares the count with 1, sends no
  \<^verbatim>\<open>EXPIRE\<close>, and the key is left with no expiry. The branch without an amount does
  send \<^verbatim>\<open>EXPIRE key 60\<close> on the same store.
\<close>

theorem throttle_incr_amount_misses_expiry:
  "fst (throttle_incr \<lparr>throttle_key = ''api'', maxValue = 1000, seconds = 60\<rparr> (Some 5) fresh)
     = Inr False \<and>
   sent (snd (throttle_incr \<lparr>throttle_key = ''api'', maxValue = 1000, seconds = 60\<rparr> (Some 5) fresh))
     = [INCRBY ''api'' 5] \<and>
   count_at (db (snd (throttle_incr \<lparr>throttle_key = ''api'', maxValue = 1000, seconds = 60\<rparr>
                        (Some 5) fresh))) ''api'' = Some 5 \<and>
   deadline_at (db (snd (throttle_incr \<lparr>throttle_key = ''api'', maxValue = 1000, seconds = 60\<rparr>
                           (Some 5) fresh))) ''api'' = None \<and>
   sent (snd (throttle_incr \<lparr>throttle_key = ''api'', maxValue = 1000, seconds = 60\<rparr> None fresh))
     = [INCR ''api'', EXPIRE ''api'' 60] \<and>
   deadline_at (db (snd (throttle_incr \<lparr>throttle_key = ''api'', maxValue = 1000, seconds = 60\<rparr>
                           None fresh))) ''api'' = Some 60"
proof -
  let ?t = "\<lparr>throttle_key = ''api'', maxValue = 1000, seconds = 60\<rparr>"
  have f: "count_at (db fresh) (throttle_key ?t) = Some 0"
    by (simp add: fresh_def store_defs)
  have v: "value_at (db fresh) ''api'' = None" "clock (db fresh) = 0" "sent fresh = []"
    by (simp_all add: fresh_def store_defs)
  have five: "throttle_incr ?t (Some 5) fresh
      = (Inr False, \<lparr>db = effect (INCRBY ''api'' 5) (db fresh), sent = [INCRBY ''api'' 5]\<rparr>)"
    using throttle_incr_eq(1) [OF f, of "Some 5" 5] v by (simp add: truthy_simps del: effect.simps)
  have one: "throttle_incr ?t None fresh
      = (Inr False, \<lparr>db = effect (EXPIRE ''api'' 60) (effect (INCR ''api'') (db fresh)),
                     sent = [INCR ''api'', EXPIRE ''api'' 60]\<rparr>)"
    using throttle_incr_eq(2) [OF f, of None] v by (simp add: truthy_simps del: effect.simps)
  have d5: "deadline_at (effect (INCRBY ''api'' 5) (db fresh)) ''api'' = None"
    using incrby_deadline [of "db fresh" "''api''" 0 5] f v by (simp add: deadline_at_def)
  have c5: "count_at (effect (INCRBY ''api'' 5) (db fresh)) ''api'' = Some 5"
    using count_at_show_int [OF value_after_incrby(1) [of "db fresh" "''api''" 0 5]] f by simp
  have p1: "value_at (effect (INCR ''api'') (db fresh)) ''api'' \<noteq> None"
    using value_after_incrby(2) [of "db fresh" "''api''" 0] f by simp
  have c1: "clock (effect (INCR ''api'') (db fresh)) = 0"
    using incrby_count(3) [of "db fresh" "''api''" 0 1] f v by simp
  have d1: "deadline_at (effect (EXPIRE ''api'' 60) (effect (INCR ''api'') (db fresh))) ''api'' = Some 60"
    using expire_positive(3) [OF p1, of 60] c1 by simp
  show ?thesis
    using d5 c5 d1 by (simp add: five one del: effect.simps)
qed

section \<open>An amount of zero\<close>

text \<open>
  C9. An amount of 0 is treated as an omitted amount: \<^verbatim>\<open>incr(0)\<close> and
  \<^verbatim>\<open>decr(0)\<close> of a counter and \<^verbatim>\<open>incr(0)\<close> of a throttle do what the calls
  without an argument do. On a key that is absent or holds a count the counter's
  \<^verbatim>\<open>incr(0)\<close> sends \<^verbatim>\<open>INCR\<close> and the stored value goes up by 1, its
  \<^verbatim>\<open>decr(0)\<close> sends \<^verbatim>\<open>DECR\<close> and the stored value goes down by 1, and the
  throttle's \<^verbatim>\<open>incr(0)\<close> raises the stored count by 1 (for a positive window).
\<close>

theorem zero_amount_counts_as_one:
  "counter_incr h (Some 0) io = counter_incr h None io \<and>
   counter_decr h (Some 0) io = counter_decr h None io \<and>
   throttle_incr t (Some 0) io = throttle_incr t None io \<and>
   (count_at (db io) (counter_key h) = Some n \<longrightarrow>
      fst (counter_incr h (Some 0) io) = Inr (n + 1) \<and>
      count_at (db (snd (counter_incr h (Some 0) io))) (counter_key h) = Some (n + 1) \<and>
      sent (snd (counter_incr h (Some 0) io)) = sent io @ [INCR (counter_key h)] \<and>
      fst (counter_decr h (Some 0) io) = Inr (n - 1) \<and>
      count_at (db (snd (counter_decr h (Some 0) io))) (counter_key h) = Some (n - 1) \<and>
      sent (snd (counter_decr h (Some 0) io)) = sent io @ [DECR (counter_key h)]) \<and>
   (count_at (db io) (throttle_key t) = Some m \<and> 0 < seconds t \<longrightarrow>
      count_at (db (snd (throttle_incr t (Some 0) io))) (throttle_key t) = Some (m + 1))"
proof -
  have same: "counter_incr h (Some 0) io = counter_incr h None io"
    "counter_decr h (Some 0) io = counter_decr h None io"
    "throttle_incr t (Some 0) io = throttle_incr t None io"
    by (simp_all add: counter_incr_def counter_decr_def throttle_incr_def truthy_simps)
  have cnt: "count_at (db io) (counter_key h) = Some n \<longrightarrow>
      fst (counter_incr h (Some 0) io) = Inr (n + 1) \<and>
      count_at (db (snd (counter_incr h (Some 0) io))) (counter_key h) = Some (n + 1) \<and>
      sent (snd (counter_incr h (Some 0) io)) = sent io @ [INCR (counter_key h)] \<and>
      fst (counter_decr h (Some 0) io) = Inr (n - 1) \<and>
      count_at (db (snd (counter_decr h (Some 0) io))) (counter_key h) = Some (n - 1) \<and>
      sent (snd (counter_decr h (Some 0) io)) = sent io @ [DECR (counter_key h)]"
  proof
    assume c: "count_at (db io) (counter_key h) = Some n"
    note v = value_after_incrby [OF c]
    have i: "count_at (effect (INCR (counter_key h)) (db io)) (counter_key h) = Some (n + 1)"
      by (rule count_at_show_int [OF v(2)])
    have d: "count_at (effect (DECR (counter_key h)) (db io)) (counter_key h) = Some (n - 1)"
      by (rule count_at_show_int [OF v(4)])
    show "fst (counter_incr h (Some 0) io) = Inr (n + 1) \<and>
      count_at (db (snd (counter_incr h (Some 0) io))) (counter_key h) = Some (n + 1) \<and>
      sent (snd (counter_incr h (Some 0) io)) = sent io @ [INCR (counter_key h)] \<and>
      fst (counter_decr h (Some 0) io) = Inr (n - 1) \<and>
      count_at (db (snd (counter_decr h (Some 0) io))) (counter_key h) = Some (n - 1) \<and>
      sent (snd (counter_decr h (Some 0) io)) = sent io @ [DECR (counter_key h)]"
      using i d
      by (simp add: counter_incr_eq(2) [OF c, of "Some 0"] counter_decr_eq(2) [OF c, of "Some 0"]
          truthy_simps del: effect.simps)
  qed
  have thr: "count_at (db io) (throttle_key t) = Some m \<and> 0 < seconds t \<longrightarrow>
      count_at (db (snd (throttle_incr t (Some 0) io))) (throttle_key t) = Some (m + 1)"
    using throttle_incr_count(2) [of io t m "Some 0"] by (simp add: truthy_simps)
  from same cnt thr show ?thesis by blast
qed

theorem zero_amount_counts_as_one_witness:
  "count_at (db (snd (counter ''cnt'' (Some 99) fresh))) ''cnt'' = Some 99 \<and>
   fst (counter_incr \<lparr>counter_key = ''cnt''\<rparr> (Some 0) (snd (counter ''cnt'' (Some 99) fresh)))
     = Inr 100 \<and>
   fst (counter_decr \<lparr>counter_key = ''cnt''\<rparr> (Some 0) (snd (counter ''cnt'' (Some 99) fresh)))
     = Inr 98 \<and>
   count_at (db (snd (counter ''cnt'' (Some 99) fresh))) ''api'' = Some 0 \<and>
   count_at (db (snd (throttle_incr \<lparr>throttle_key = ''api'', maxValue = 1000, seconds = 60\<rparr>
                        (Some 0) (snd (counter ''cnt'' (Some 99) fresh))))) ''api'' = Some 1"
proof -
  let ?io = "snd (counter ''cnt'' (Some 99) fresh)"
  let ?h = "\<lparr>counter_key = ''cnt''\<rparr>"
  let ?t = "\<lparr>throttle_key = ''api'', maxValue = 1000, seconds = 60\<rparr>"
  have c: "count_at (db ?io) (counter_key ?h) = Some 99"
    by (rule count_at_show_int)
      (simp add: counter_def await_Inr [where v = "()"] ioredis_set_def issue_simps set_value return_def)
  have a: "count_at (db ?io) (throttle_key ?t) = Some 0"
    by (simp add: counter_def await_def return_def ioredis_set_def issue_def redis_set_def
        fresh_def store_defs)
  have s: "0 < seconds ?t" by simp
  note z = zero_amount_counts_as_one [of ?h ?io ?t 99 0]
  have z4: "fst (counter_incr ?h (Some 0) ?io) = Inr 100 \<and> fst (counter_decr ?h (Some 0) ?io) = Inr 98"
    using z [THEN conjunct2, THEN conjunct2, THEN conjunct2, THEN conjunct1] c by simp
  have z5: "count_at (db (snd (throttle_incr ?t (Some 0) ?io))) ''api'' = Some 1"
    using z [THEN conjunct2, THEN conjunct2, THEN conjunct2, THEN conjunct2] a s by simp
  show ?thesis using c a z4 z5 by simp
qed

end
